theory Spec2Isabelle
  imports Main "HOL-Library.Extended_Nat"
begin

section \<open>The parsy combinators that pom\_tree.py is written with\<close>

text \<open>
  A parsy parser is a function of the whole stream and an index into it that returns a
  result: a status, the index reached and the value. The fields \<open>furthest\<close> and
  \<open>expected\<close> of parsy's result only feed the text of error messages and are left
  out. A call of a parser need not return: the \<open>while\<close> loop of \<open>times\<close> runs for
  ever on an element parser that succeeds without consuming input. So a parser returns
  an option, and \<open>None\<close> is the call that does not return.
\<close>

datatype 'a result = Failure | Success nat 'a

type_synonym 'a parser = "string \<Rightarrow> nat \<Rightarrow> 'a result option"

text \<open>\<^verbatim>\<open>string(s)\<close>: succeeds when \<^verbatim>\<open>stream[index:index+len(s)] == s\<close>.\<close>

definition string_p :: "string \<Rightarrow> string parser" where
  "string_p lit s i =
     Some (if take (length lit) (drop i s) = lit then Success (i + length lit) lit else Failure)"

definition success :: "'a \<Rightarrow> 'a parser" where
  "success v s i = Some (Success i v)"

definition bind :: "'a parser \<Rightarrow> ('a \<Rightarrow> 'b parser) \<Rightarrow> 'b parser" where
  "bind p f s i =
     (case p s i of
        None \<Rightarrow> None
      | Some Failure \<Rightarrow> Some Failure
      | Some (Success j v) \<Rightarrow> f v s j)"

text \<open>\<^verbatim>\<open>p >> q\<close>, \<^verbatim>\<open>p << q\<close>, \<^verbatim>\<open>p + q\<close>, \<^verbatim>\<open>p.map(f)\<close> and \<^verbatim>\<open>p | q\<close>.\<close>

definition then_p :: "'a parser \<Rightarrow> 'b parser \<Rightarrow> 'b parser" where
  "then_p p q = bind p (\<lambda>_. q)"

definition skip :: "'a parser \<Rightarrow> 'b parser \<Rightarrow> 'a parser" where
  "skip p q = bind p (\<lambda>v. bind q (\<lambda>_. success v))"

definition add_p :: "'a list parser \<Rightarrow> 'a list parser \<Rightarrow> 'a list parser" where
  "add_p p q = bind p (\<lambda>a. bind q (\<lambda>b. success (a @ b)))"

definition map_p :: "'a parser \<Rightarrow> ('a \<Rightarrow> 'b) \<Rightarrow> 'b parser" where
  "map_p p f = bind p (\<lambda>v. success (f v))"

definition alt :: "'a parser \<Rightarrow> 'a parser \<Rightarrow> 'a parser" where
  "alt p q s i =
     (case p s i of
        None \<Rightarrow> None
      | Some Failure \<Rightarrow> q s i
      | Some (Success j v) \<Rightarrow> Some (Success j v))"

text \<open>
  \<^verbatim>\<open>p.times(min, max)\<close>: the loop \<^verbatim>\<open>while times < max\<close> that appends the value and
  moves the index on success, leaves the loop on a failure once \<^verbatim>\<open>times >= min\<close> and
  returns the failure otherwise. \<open>min\<close> is an integer (\<open>sep_by\<close> passes \<open>-1\<close>) and
  \<open>max\<close> may be infinite.
\<close>

partial_function (option) times_loop ::
  "'a parser \<Rightarrow> int \<Rightarrow> enat \<Rightarrow> string \<Rightarrow> nat \<Rightarrow> 'a list \<Rightarrow> nat \<Rightarrow> 'a list result option"
where
  "times_loop p mn mx s i vals n =
    (if enat n < mx then
       (case p s i of
          None \<Rightarrow> None
        | Some Failure \<Rightarrow> if mn \<le> int n then Some (Success i vals) else Some Failure
        | Some (Success j v) \<Rightarrow> times_loop p mn mx s j (vals @ [v]) (Suc n))
     else Some (Success i vals))"

declare times_loop.simps [code]

definition times :: "'a parser \<Rightarrow> int \<Rightarrow> enat \<Rightarrow> 'a list parser" where
  "times p mn mx s i = times_loop p mn mx s i [] 0"

definition at_least :: "'a parser \<Rightarrow> int \<Rightarrow> 'a list parser" where
  "at_least p n = times p n \<infinity>"

text \<open>\<^verbatim>\<open>p.optional()\<close> is \<^verbatim>\<open>p.times(0, 1).map(lambda v: v[0] if v else None)\<close>.\<close>

definition optional :: "'a parser \<Rightarrow> 'a option parser" where
  "optional p = map_p (times p 0 1) (\<lambda>v. case v of [] \<Rightarrow> None | x # _ \<Rightarrow> Some x)"

text \<open>
  \<^verbatim>\<open>p.sep_by(sep)\<close> with its defaults \<^verbatim>\<open>min=0\<close> and \<^verbatim>\<open>max=inf\<close>:
  \<^verbatim>\<open>p.times(1) + (sep >> p).times(min - 1, max - 1)\<close>, or no element at all.
\<close>

definition sep_by :: "'a parser \<Rightarrow> 'b parser \<Rightarrow> 'a list parser" where
  "sep_by p sep = alt (add_p (times p 1 1) (times (then_p sep p) (- 1) \<infinity>)) (success [])"

definition eof :: "unit parser" where
  "eof s i = Some (if length s \<le> i then Success i () else Failure)"

text \<open>\<^verbatim>\<open>line_info\<close> gives the number of newlines before the index (the column is not used).\<close>

definition line_info :: "nat parser" where
  "line_info s i = Some (Success i (count_list (take i s) CHR ''\<newline>''))"

text \<open>\<^verbatim>\<open>p.parse(stream)\<close> runs \<^verbatim>\<open>p << eof\<close> from index 0 and raises \<open>ParseError\<close> on a failure.\<close>

datatype error = ParseError

definition parse :: "'a parser \<Rightarrow> string \<Rightarrow> (error + 'a) option" where
  "parse p s =
     (case skip p eof s 0 of
        None \<Rightarrow> None
      | Some Failure \<Rightarrow> Some (Inl ParseError)
      | Some (Success j v) \<Rightarrow> Some (Inr v))"

section \<open>The helpers of semdep.parsers.util\<close>

text \<open>
  Modelled from the spec: \<open>consume_line\<close> of semdep.parsers.util, which is not among
  the sources. The tail of a coordinate is "consumed to end-of-line" and the first line
  is discarded "unconditionally": the parser takes every character up to, and not
  including, the next newline, and succeeds on an empty rest of line too. (pom\_tree
  matches the newline itself with \<^verbatim>\<open>string("\n")\<close> afterwards.)
\<close>

definition consume_line :: "string parser" where
  "consume_line s i =
     (let rest = takeWhile (\<lambda>c. c \<noteq> CHR ''\<newline>'') (drop i s)
      in Some (Success (i + length rest) rest))"

text \<open>
  Modelled from the spec: \<open>upto(d, consume_other=True)\<close> of semdep.parsers.util, which
  is not among the sources. A coordinate is split "on its first four colon-delimited
  segments", what follows "the fourth colon" is the tail, the extractor fails when fewer
  segments "are present before end of line", and "any non-empty, non-colon-containing
  span is accepted": the parser takes the non-empty span of characters up to the
  delimiter on the same line, consumes the delimiter and returns the span without it.
\<close>

definition upto :: "char \<Rightarrow> string parser" where
  "upto d s i =
     (let seg = takeWhile (\<lambda>c. c \<noteq> d \<and> c \<noteq> CHR ''\<newline>'') (drop i s)
      in Some (if seg \<noteq> [] \<and> take 1 (drop (i + length seg) s) = [d]
               then Success (i + length seg + 1) seg else Failure))"

text \<open>
  Modelled from the spec: \<open>mark_line\<close> of semdep.parsers.util, which is not among the
  sources. Each line keeps "its original 1-based position": the parser reads the line
  of the current index, runs \<open>p\<close> and pairs the line number with the value of \<open>p\<close>.
\<close>

definition mark_line :: "'a parser \<Rightarrow> (nat \<times> 'a) parser" where
  "mark_line p = bind (map_p line_info (\<lambda>l. l + 1)) (\<lambda>line. bind p (\<lambda>x. success (line, x)))"

text \<open>
  Modelled from the spec: \<open>safe_path_parse\<close> of semdep.parsers.util, which is not among
  the sources. The file behind the path is its text, or \<open>None\<close> when it cannot be read.
  "If the input cannot be read or the grammar rejects it" the caller gets no value
  (Python's \<open>None\<close>); the failure signal is swallowed at this boundary.
\<close>

definition safe_path_parse :: "string option \<Rightarrow> 'a parser \<Rightarrow> 'a option option" where
  "safe_path_parse path parser =
     (case path of
        None \<Rightarrow> Some None
      | Some text \<Rightarrow>
          (case parse parser text of
             None \<Rightarrow> None
           | Some (Inl e) \<Rightarrow> Some None
           | Some (Inr v) \<Rightarrow> Some (Some v)))"

section \<open>pom\_tree.py\<close>

text \<open>
  The types of semgrep\_output\_v1 that the parser builds. Their declarations are not
  among the sources; the parser uses the constructors \<open>Direct\<close>, \<open>Transitive\<close> and
  \<open>Maven\<close> only. The dictionary \<open>allowed_hashes\<close> is an association list; the
  empty dictionary \<^verbatim>\<open>{}\<close> is the empty list.
\<close>

datatype Transitivity = Direct | Transitive | Unknown

datatype Ecosystem = Npm | Pypi | Gem | Gomod | Cargo | Maven

record FoundDependency =
  package :: string
  version :: string
  ecosystem :: Ecosystem
  allowed_hashes :: "(string \<times> string list) list"
  transitivity :: Transitivity
  line_number :: nat

definition dep :: "(string \<times> string) parser" where
  "dep =
     then_p (upto CHR '':'')
       (bind (upto CHR '':'') (\<lambda>pkg.
          then_p (upto CHR '':'')
            (bind (upto CHR '':'') (\<lambda>ver.
               skip (success (pkg, ver)) consume_line))))"

text \<open>The branch glyph \<^verbatim>\<open>r"\- "\<close> is a backslash, a minus and a space.\<close>

definition tree_line :: "(nat \<times> Transitivity \<times> string \<times> string) parser" where
  "tree_line =
     mark_line
       (bind (alt (at_least (alt (string_p ''|  '') (string_p ''   '')) 1) (success []))
          (\<lambda>depth.
             then_p (alt (string_p ''+- '') (string_p [CHR 0x5C, CHR ''-'', CHR '' '']))
               (map_p dep (\<lambda>d.
                  (if length depth > 0 then Transitive else Direct, fst d, snd d)))))"

definition pom_tree :: "(nat \<times> Transitivity \<times> string \<times> string) list parser" where
  "pom_tree =
     skip
       (then_p (then_p consume_line (string_p ''\<newline>''))
          (sep_by tree_line (string_p ''\<newline>'')))
       (optional (string_p ''\<newline>''))"

text \<open>
  \<open>parse_pom_tree(tree_path, _)\<close>: \<^verbatim>\<open>if not deps\<close> holds for \<open>None\<close> and for the empty
  list; the loop appends one \<open>FoundDependency\<close> per parsed line.
\<close>

definition found_dependency :: "nat \<times> Transitivity \<times> string \<times> string \<Rightarrow> FoundDependency" where
  "found_dependency d =
     (case d of (lnum, tr, pkg, ver) \<Rightarrow>
        \<lparr>package = pkg, version = ver, ecosystem = Maven,
         allowed_hashes = [], transitivity = tr,
         line_number = lnum\<rparr>)"

definition parse_pom_tree :: "string option \<Rightarrow> string option \<Rightarrow> FoundDependency list option" where
  "parse_pom_tree tree_path unused =
     (case safe_path_parse tree_path pom_tree of
        None \<Rightarrow> None
      | Some None \<Rightarrow> Some []
      | Some (Some []) \<Rightarrow> Some []
      | Some (Some deps) \<Rightarrow>
          Some (foldl (\<lambda>output d. output @ [found_dependency d]) [] deps))"

section \<open>Documents in the dependency-tree notation\<close>

text \<open>
  The vocabulary of the statements below: the line an index lies on, the end of a line,
  and the shape of a dependency line as the grammar of \<open>tree_line\<close> reads it.
\<close>

definition eol :: "string \<Rightarrow> bool" where
  "eol rest \<longleftrightarrow> rest = [] \<or> hd rest = CHR ''\<newline>''"

definition line_no :: "string \<Rightarrow> nat \<Rightarrow> nat" where
  "line_no s i = count_list (take i s) CHR ''\<newline>'' + 1"

definition seg_ok :: "string \<Rightarrow> bool" where
  "seg_ok f \<longleftrightarrow> f \<noteq> [] \<and> CHR '':'' \<notin> set f \<and> CHR ''\<newline>'' \<notin> set f"

text \<open>
  A dependency line: the indentation markers, the branch glyph, the four segments of the
  coordinate and what follows the fourth colon.
\<close>

record pom_line =
  l_indent :: "string list"
  l_glyph :: string
  l_group :: string
  l_artifact :: string
  l_packaging :: string
  l_version :: string
  l_tail :: string

definition marker_ok :: "string \<Rightarrow> bool" where
  "marker_ok m \<longleftrightarrow> m = ''|  '' \<or> m = ''   ''"

definition glyph_ok :: "string \<Rightarrow> bool" where
  "glyph_ok g \<longleftrightarrow> g = ''+- '' \<or> g = [CHR 0x5C, CHR ''-'', CHR '' '']"

definition coordinate :: "pom_line \<Rightarrow> string" where
  "coordinate l =
     l_group l @ '':'' @ l_artifact l @ '':'' @ l_packaging l @ '':'' @ l_version l @ '':'' @ l_tail l"

definition render_line :: "pom_line \<Rightarrow> string" where
  "render_line l = concat (l_indent l) @ l_glyph l @ coordinate l"

definition line_ok :: "pom_line \<Rightarrow> bool" where
  "line_ok l \<longleftrightarrow>
     list_all marker_ok (l_indent l) \<and> glyph_ok (l_glyph l) \<and>
     seg_ok (l_group l) \<and> seg_ok (l_artifact l) \<and> seg_ok (l_packaging l) \<and>
     seg_ok (l_version l) \<and> CHR ''\<newline>'' \<notin> set (l_tail l)"

text \<open>The value \<open>tree_line\<close> is expected to give for a line that starts on line \<open>k\<close>.\<close>

definition line_value :: "nat \<Rightarrow> pom_line \<Rightarrow> nat \<times> Transitivity \<times> string \<times> string" where
  "line_value k l = (k, if l_indent l = [] then Direct else Transitive, l_artifact l, l_version l)"

abbreviation marker :: "string parser" where
  "marker \<equiv> alt (string_p ''|  '') (string_p ''   '')"

abbreviation glyph :: "string parser" where
  "glyph \<equiv> alt (string_p ''+- '') (string_p [CHR 0x5C, CHR ''-'', CHR '' ''])"

abbreviation sep_line :: "(nat \<times> Transitivity \<times> string \<times> string) parser" where
  "sep_line \<equiv> then_p (string_p ''\<newline>'') tree_line"

abbreviation values_from :: "nat \<Rightarrow> pom_line list \<Rightarrow> (nat \<times> Transitivity \<times> string \<times> string) list" where
  "values_from k ls \<equiv> map (\<lambda>(n, l). line_value n l) (List.enumerate k ls)"

text \<open>
  A document is the root label, a newline and the lines joined by newlines
  (\<^verbatim>\<open>"\n".join(lines)\<close>); \<open>split_lines\<close> is \<^verbatim>\<open>text.split("\n")\<close>.
\<close>

fun join_lines :: "string list \<Rightarrow> string" where
  "join_lines [] = []"
| "join_lines [x] = x"
| "join_lines (x # y # ys) = x @ ''\<newline>'' @ join_lines (y # ys)"

definition doc_of :: "string \<Rightarrow> string list \<Rightarrow> string" where
  "doc_of label lines = label @ ''\<newline>'' @ join_lines lines"

fun split_lines :: "string \<Rightarrow> string list" where
  "split_lines [] = [[]]"
| "split_lines (c # cs) =
     (if c = CHR ''\<newline>'' then [] # split_lines cs
      else (case split_lines cs of [] \<Rightarrow> [[c]] | l # ls \<Rightarrow> (c # l) # ls))"

text \<open>
  A parser returns when every call of it does, and advances when each of its successes
  moves the index forward inside the stream; the loop of \<open>times\<close> returns on such an
  element parser.
\<close>

definition returns :: "'a parser \<Rightarrow> bool" where
  "returns p \<longleftrightarrow> (\<forall>s i. \<exists>r. p s i = Some r)"

definition advances :: "'a parser \<Rightarrow> bool" where
  "advances p \<longleftrightarrow> (\<forall>s i j v. p s i = Some (Success j v) \<longrightarrow> i < j \<and> j \<le> length s)"


section \<open>Running the combinators\<close>

lemma drop_step: "drop i s = x @ rest \<Longrightarrow> drop (i + length x) s = rest"
  by (metis add.commute append_eq_conv_conj drop_drop)

lemma take_step: "drop i s = x @ rest \<Longrightarrow> take (i + length x) s = take i s @ x"
  by (simp add: take_add)

lemma line_no_step:
  "drop i s = x @ rest \<Longrightarrow> line_no s (i + length x) = line_no s i + count_list x CHR ''\<newline>''"
  by (simp add: line_no_def take_step)

lemma count_list_0: "c \<notin> set x \<Longrightarrow> count_list x c = 0"
  by (simp add: count_list_0_iff)

lemma string_p_ok: "drop i s = lit @ rest \<Longrightarrow> string_p lit s i = Some (Success (i + length lit) lit)"
  by (simp add: string_p_def)

lemma string_p_no:
  "lit \<noteq> [] \<Longrightarrow> drop i s = [] \<or> hd (drop i s) \<noteq> hd lit \<Longrightarrow> string_p lit s i = Some Failure"
  by (cases lit; cases "drop i s") (auto simp: string_p_def)

lemma bind_Success: "p s i = Some (Success j v) \<Longrightarrow> bind p f s i = f v s j"
  by (simp add: bind_def)

lemma bind_Failure: "p s i = Some Failure \<Longrightarrow> bind p f s i = Some Failure"
  by (simp add: bind_def)

lemma then_p_Success: "p s i = Some (Success j v) \<Longrightarrow> then_p p q s i = q s j"
  by (simp add: then_p_def bind_def)

lemma then_p_Failure: "p s i = Some Failure \<Longrightarrow> then_p p q s i = Some Failure"
  by (simp add: then_p_def bind_def)

lemma skip_Success:
  "p s i = Some (Success j v) \<Longrightarrow> q s j = Some (Success k w) \<Longrightarrow> skip p q s i = Some (Success k v)"
  by (simp add: skip_def bind_def success_def)

lemma map_p_Success: "p s i = Some (Success j v) \<Longrightarrow> map_p p f s i = Some (Success j (f v))"
  by (simp add: map_p_def bind_def success_def)

lemma map_p_Failure: "p s i = Some Failure \<Longrightarrow> map_p p f s i = Some Failure"
  by (simp add: map_p_def bind_def)

lemma alt_Success: "p s i = Some (Success j v) \<Longrightarrow> alt p q s i = Some (Success j v)"
  by (simp add: alt_def)

lemma alt_Failure: "p s i = Some Failure \<Longrightarrow> alt p q s i = q s i"
  by (simp add: alt_def)

lemma upto_ok:
  assumes "drop i s = f @ d # rest" and "f \<noteq> []" and "d \<notin> set f" and "CHR ''\<newline>'' \<notin> set f"
  shows "upto d s i = Some (Success (i + length f + 1) f)"
proof -
  have tw: "takeWhile (\<lambda>c. c \<noteq> d \<and> c \<noteq> CHR ''\<newline>'') (drop i s) = f"
    using assms by (auto simp: takeWhile_tail)
  have "drop (i + length f) s = d # rest"
    using assms(1) drop_step by blast
  then show ?thesis
    using assms(2) by (simp add: upto_def tw)
qed

lemma consume_line_ok:
  assumes "drop i s = t @ rest" and "CHR ''\<newline>'' \<notin> set t" and "eol rest"
  shows "consume_line s i = Some (Success (i + length t) t)"
proof -
  have "takeWhile (\<lambda>c. c \<noteq> CHR ''\<newline>'') (t @ rest) = t"
  proof (cases rest)
    case Nil
    then show ?thesis using assms(2) by auto
  next
    case (Cons c cs)
    then have "c = CHR ''\<newline>''" using assms(3) by (simp add: eol_def)
    then show ?thesis using assms(2) Cons by (auto simp: takeWhile_tail)
  qed
  then show ?thesis
    using assms(1) by (simp add: consume_line_def)
qed

lemma dep_ok:
  assumes d: "drop i s = f1 @ '':'' @ f2 @ '':'' @ f3 @ '':'' @ f4 @ '':'' @ t @ rest"
    and ok: "seg_ok f1" "seg_ok f2" "seg_ok f3" "seg_ok f4"
    and t: "CHR ''\<newline>'' \<notin> set t" and e: "eol rest"
  shows "dep s i = Some (Success (i + length (f1 @ '':'' @ f2 @ '':'' @ f3 @ '':'' @ f4 @ '':'' @ t)) (f2, f4))"
proof -
  let ?i1 = "i + length f1 + 1"
  let ?i2 = "?i1 + length f2 + 1"
  let ?i3 = "?i2 + length f3 + 1"
  let ?i4 = "?i3 + length f4 + 1"
  have u1: "upto CHR '':'' s i = Some (Success ?i1 f1)"
    using d ok(1) by (intro upto_ok) (auto simp: seg_ok_def)
  have d1: "drop ?i1 s = f2 @ '':'' @ f3 @ '':'' @ f4 @ '':'' @ t @ rest"
    using drop_step [of i s "f1 @ '':''"] d by simp
  have u2: "upto CHR '':'' s ?i1 = Some (Success ?i2 f2)"
    using d1 ok(2) by (intro upto_ok) (auto simp: seg_ok_def)
  have d2: "drop ?i2 s = f3 @ '':'' @ f4 @ '':'' @ t @ rest"
    using drop_step [of ?i1 s "f2 @ '':''"] d1 by simp
  have u3: "upto CHR '':'' s ?i2 = Some (Success ?i3 f3)"
    using d2 ok(3) by (intro upto_ok) (auto simp: seg_ok_def)
  have d3: "drop ?i3 s = f4 @ '':'' @ t @ rest"
    using drop_step [of ?i2 s "f3 @ '':''"] d2 by simp
  have u4: "upto CHR '':'' s ?i3 = Some (Success ?i4 f4)"
    using d3 ok(4) by (intro upto_ok) (auto simp: seg_ok_def)
  have d4: "drop ?i4 s = t @ rest"
    using drop_step [of ?i3 s "f4 @ '':''"] d3 by simp
  have c: "consume_line s ?i4 = Some (Success (?i4 + length t) t)"
    using d4 t e by (rule consume_line_ok)
  have "dep s i = skip (success (f2, f4)) consume_line s ?i4"
    using u1 u2 u3 u4 by (simp add: dep_def then_p_def bind_def)
  also have "\<dots> = Some (Success (?i4 + length t) (f2, f4))"
    using c by (simp add: skip_def bind_def success_def)
  finally show ?thesis by (simp add: add.assoc)
qed

lemma marker_ok_parse:
  assumes "marker_ok m" and "drop i s = m @ rest"
  shows "marker s i = Some (Success (i + 3) m)"
proof -
  from assms(1) consider "m = ''|  ''" | "m = ''   ''" by (auto simp: marker_ok_def)
  then show ?thesis
  proof cases
    case 1
    then show ?thesis using string_p_ok [of i s m rest] assms(2) by (simp add: alt_def)
  next
    case 2
    have "string_p ''|  '' s i = Some Failure"
      using assms(2) 2 by (simp add: string_p_def)
    then show ?thesis using string_p_ok [of i s m rest] assms(2) 2 by (simp add: alt_def)
  qed
qed

lemma marker_stop:
  assumes "drop i s = [] \<or> (hd (drop i s) \<noteq> CHR ''|'' \<and> hd (drop i s) \<noteq> CHR '' '')"
  shows "marker s i = Some Failure"
  using assms by (cases "drop i s") (auto simp: alt_def string_p_def)

lemma glyph_ok_parse:
  assumes "glyph_ok g" and "drop i s = g @ rest"
  shows "glyph s i = Some (Success (i + 3) g)"
proof -
  from assms(1) consider "g = ''+- ''" | "g = [CHR 0x5C, CHR ''-'', CHR '' '']" by (auto simp: glyph_ok_def)
  then show ?thesis
  proof cases
    case 1
    then show ?thesis using string_p_ok [of i s g rest] assms(2) by (simp add: alt_def)
  next
    case 2
    have "string_p ''+- '' s i = Some Failure"
      using assms(2) 2 by (simp add: string_p_def)
    then show ?thesis using string_p_ok [of i s g rest] assms(2) 2 by (simp add: alt_def)
  qed
qed

lemma markers_loop:
  assumes "list_all marker_ok ms" and "drop i s = concat ms @ rest"
    and "rest = [] \<or> (hd rest \<noteq> CHR ''|'' \<and> hd rest \<noteq> CHR '' '')"
  shows "times_loop marker 1 \<infinity> s i vals n =
           Some (if 1 \<le> n + length ms then Success (i + length (concat ms)) (vals @ ms) else Failure)"
  using assms
proof (induction ms arbitrary: i vals n)
  case Nil
  then have "marker s i = Some Failure" by (intro marker_stop) simp
  then show ?case by (subst times_loop.simps) simp
next
  case (Cons m ms)
  then have m: "marker_ok m" and ms: "list_all marker_ok ms" by simp_all
  have len: "length m = 3" using m by (auto simp: marker_ok_def)
  have d0: "drop i s = m @ (concat ms @ rest)"
    using Cons.prems(2) by simp
  have step: "marker s i = Some (Success (i + 3) m)"
    using m d0 by (rule marker_ok_parse)
  have d: "drop (i + 3) s = concat ms @ rest"
    using drop_step [OF d0] len by simp
  have "times_loop marker 1 \<infinity> s i vals n = times_loop marker 1 \<infinity> s (i + 3) (vals @ [m]) (Suc n)"
    by (subst times_loop.simps) (simp add: step)
  also have "\<dots> = Some (Success (i + 3 + length (concat ms)) ((vals @ [m]) @ ms))"
    using Cons.IH [OF ms d Cons.prems(3), of "vals @ [m]" "Suc n"] by simp
  finally show ?case by (simp add: len add.assoc)
qed

lemma indent_ok:
  assumes "list_all marker_ok ms" and "drop i s = concat ms @ rest"
    and "rest = [] \<or> (hd rest \<noteq> CHR ''|'' \<and> hd rest \<noteq> CHR '' '')"
  shows "alt (at_least marker 1) (success []) s i = Some (Success (i + length (concat ms)) ms)"
proof -
  have "at_least marker 1 s i =
          Some (if 1 \<le> length ms then Success (i + length (concat ms)) ms else Failure)"
    using markers_loop [OF assms, of "[]" 0] by (simp add: at_least_def times_def)
  then show ?thesis
    by (cases ms) (simp_all add: alt_def success_def)
qed

lemma tree_line_ok:
  assumes ok: "line_ok l" and d: "drop i s = render_line l @ rest" and e: "eol rest"
  shows "tree_line s i = Some (Success (i + length (render_line l)) (line_value (line_no s i) l))"
proof -
  let ?ms = "l_indent l"
  let ?i1 = "i + length (concat ?ms)"
  let ?i2 = "?i1 + 3"
  have g: "glyph_ok (l_glyph l)" and ms: "list_all marker_ok ?ms"
    using ok by (simp_all add: line_ok_def)
  have glen: "length (l_glyph l) = 3" using g by (auto simp: glyph_ok_def)
  have d0: "drop i s = concat ?ms @ (l_glyph l @ coordinate l @ rest)"
    using d by (simp add: render_line_def)
  have "hd (l_glyph l @ coordinate l @ rest) \<noteq> CHR ''|'' \<and> hd (l_glyph l @ coordinate l @ rest) \<noteq> CHR '' ''"
    using g by (auto simp: glyph_ok_def)
  then have ind: "alt (at_least marker 1) (success []) s i = Some (Success ?i1 ?ms)"
    using indent_ok [OF ms d0] by simp
  have d1: "drop ?i1 s = l_glyph l @ (coordinate l @ rest)"
    using drop_step [OF d0] by simp
  have gl: "glyph s ?i1 = Some (Success ?i2 (l_glyph l))"
    using glyph_ok_parse [OF g d1] .
  have d2: "drop ?i2 s = coordinate l @ rest"
    using drop_step [OF d1] glen by simp
  have dp: "dep s ?i2 = Some (Success (?i2 + length (coordinate l)) (l_artifact l, l_version l))"
    using dep_ok [of ?i2 s "l_group l" "l_artifact l" "l_packaging l" "l_version l" "l_tail l" rest]
      d2 ok e by (simp add: line_ok_def coordinate_def)
  show ?thesis
    using ind gl dp
    by (simp add: tree_line_def mark_line_def bind_def map_p_def then_p_def success_def
        line_info_def line_no_def line_value_def render_line_def glen add.assoc)
qed

lemma join_lines_Cons: "join_lines (x # xs) = x @ concat (map (\<lambda>y. ''\<newline>'' @ y) xs)"
  by (induction xs arbitrary: x) simp_all

lemma marker_no_newline: "marker_ok m \<Longrightarrow> CHR ''\<newline>'' \<notin> set m"
  unfolding marker_ok_def by (erule disjE) simp_all

lemma glyph_no_newline: "glyph_ok g \<Longrightarrow> CHR ''\<newline>'' \<notin> set g"
  unfolding glyph_ok_def by (erule disjE) simp_all

lemma indent_no_newline:
  "list_all marker_ok ms \<Longrightarrow> CHR ''\<newline>'' \<notin> set (concat ms)"
  by (induction ms) (simp_all add: marker_no_newline)

lemma coordinate_no_newline:
  assumes "line_ok l"
  shows "CHR ''\<newline>'' \<notin> set (coordinate l)"
  using assms unfolding line_ok_def seg_ok_def coordinate_def by simp

lemma render_line_no_newline:
  assumes "line_ok l"
  shows "CHR ''\<newline>'' \<notin> set (render_line l)"
  using assms indent_no_newline [of "l_indent l"] glyph_no_newline [of "l_glyph l"]
    coordinate_no_newline [OF assms]
  by (simp add: render_line_def line_ok_def)

lemma tree_line_stop:
  assumes "eol (drop i s)"
  shows "tree_line s i = Some Failure"
proof -
  have h: "drop i s = [] \<or> (hd (drop i s) \<noteq> CHR ''|'' \<and> hd (drop i s) \<noteq> CHR '' '')"
    using assms by (auto simp: eol_def)
  have ind: "alt (at_least marker 1) (success []) s i = Some (Success i [])"
    using indent_ok [of "[]" i s "drop i s"] h by simp
  have "glyph s i = Some Failure"
    using assms by (cases "drop i s") (auto simp: alt_def string_p_def eol_def)
  then show ?thesis
    using ind
    by (simp add: tree_line_def mark_line_def bind_def map_p_def then_p_def success_def line_info_def)
qed

lemma sep_line_stop:
  assumes "string_p ''\<newline>'' s j = Some Failure \<or> tree_line s (j + 1) = Some Failure"
  shows "sep_line s j = Some Failure"
  using assms by (auto simp: then_p_def bind_def string_p_def)

lemma sep_loop_ok:
  assumes "list_all line_ok ls"
    and "drop i s = concat (map (\<lambda>y. ''\<newline>'' @ y) (map render_line ls)) @ post"
    and "eol post"
    and "sep_line s (i + length (concat (map (\<lambda>y. ''\<newline>'' @ y) (map render_line ls)))) = Some Failure"
  shows "times_loop sep_line (- 1) \<infinity> s i vals n =
           Some (Success (i + length (concat (map (\<lambda>y. ''\<newline>'' @ y) (map render_line ls))))
                   (vals @ values_from (line_no s i + 1) ls))"
  using assms
proof (induction ls arbitrary: i vals n)
  case Nil
  then show ?case by (subst times_loop.simps) (simp add: enumerate_simps)
next
  case (Cons l ls)
  let ?rest = "concat (map (\<lambda>y. ''\<newline>'' @ y) (map render_line ls)) @ post"
  let ?i1 = "i + 1"
  let ?i2 = "?i1 + length (render_line l)"
  have ok: "line_ok l" and oks: "list_all line_ok ls" using Cons.prems(1) by simp_all
  have d0: "drop i s = ''\<newline>'' @ (render_line l @ ?rest)"
    using Cons.prems(2) by simp
  have nl: "string_p ''\<newline>'' s i = Some (Success ?i1 ''\<newline>'')"
    using string_p_ok [OF d0] by simp
  have d1: "drop ?i1 s = render_line l @ ?rest"
    using drop_step [OF d0] by simp
  have e: "eol ?rest"
    using Cons.prems(3) by (cases ls) (simp_all add: eol_def)
  have post: "tree_line s ?i1 = Some (Success ?i2 (line_value (line_no s ?i1) l))"
    using tree_line_ok [OF ok d1 e] .
  have n1: "line_no s ?i1 = line_no s i + 1"
    using line_no_step [OF d0] by simp
  have n2: "line_no s ?i2 = line_no s ?i1"
    using line_no_step [OF d1] render_line_no_newline [OF ok] by (simp add: count_list_0)
  have d2: "drop ?i2 s = ?rest"
    using drop_step [OF d1] .
  have stop: "sep_line s (?i2 + length (concat (map (\<lambda>y. ''\<newline>'' @ y) (map render_line ls)))) = Some Failure"
    using Cons.prems(4) by (simp add: add.assoc)
  have step: "sep_line s i = Some (Success ?i2 (line_value (line_no s i + 1) l))"
    using nl post n1 by (simp add: then_p_def bind_def)
  have "times_loop sep_line (- 1) \<infinity> s i vals n =
          times_loop sep_line (- 1) \<infinity> s ?i2 (vals @ [line_value (line_no s i + 1) l]) (Suc n)"
    by (subst times_loop.simps) (simp add: step)
  also have "\<dots> = Some (Success (?i2 + length (concat (map (\<lambda>y. ''\<newline>'' @ y) (map render_line ls))))
                   ((vals @ [line_value (line_no s i + 1) l]) @ values_from (line_no s i + 1 + 1) ls))"
    using Cons.IH [OF oks d2 Cons.prems(3) stop, of "vals @ [line_value (line_no s i + 1) l]" "Suc n"]
    by (simp only: n1 n2)
  finally show ?case
    by (simp add: add.assoc enumerate_simps)
qed

lemma times_once:
  "times p 1 1 s i =
     (case p s i of None \<Rightarrow> None | Some Failure \<Rightarrow> Some Failure
      | Some (Success j v) \<Rightarrow> Some (Success j [v]))"
proof -
  have one: "\<not> enat (Suc 0) < 1" by (simp add: one_enat_def)
  have zero: "enat 0 < 1" by (simp add: one_enat_def zero_enat_def)
  show ?thesis
    unfolding times_def
    apply (subst times_loop.simps)
    apply (simp only: zero if_True)
    apply (cases "p s i")
     apply simp
    subgoal for r
      apply (cases r)
       apply simp
      apply (subst times_loop.simps)
      apply (simp add: one)
      done
    done
qed

lemma optional_eval:
  "optional p s i =
     (case p s i of None \<Rightarrow> None | Some Failure \<Rightarrow> Some (Success i None)
      | Some (Success j v) \<Rightarrow> Some (Success j (Some v)))"
proof -
  have one: "\<not> enat (Suc 0) < 1" by (simp add: one_enat_def)
  have zero: "enat 0 < 1" by (simp add: one_enat_def zero_enat_def)
  show ?thesis
    unfolding optional_def map_p_def bind_def times_def success_def
    apply (subst times_loop.simps)
    apply (simp only: zero if_True)
    apply (cases "p s i")
     apply simp
    subgoal for r
      apply (cases r)
       apply simp
      apply (subst times_loop.simps)
      apply (simp add: one)
      done
    done
qed

lemma sep_by_ok:
  assumes oks: "list_all line_ok ls"
    and d: "drop i s = join_lines (map render_line ls) @ post"
    and e: "ls \<noteq> [] \<longrightarrow> eol post"
    and stop: "if ls = [] then tree_line s i = Some Failure
               else sep_line s (i + length (join_lines (map render_line ls))) = Some Failure"
  shows "sep_by tree_line (string_p ''\<newline>'') s i =
           Some (Success (i + length (join_lines (map render_line ls))) (values_from (line_no s i) ls))"
proof (cases ls)
  case Nil
  then show ?thesis
    using stop by (simp add: sep_by_def alt_def add_p_def bind_def times_once success_def enumerate_simps)
next
  case (Cons l ls')
  let ?more = "concat (map (\<lambda>y. ''\<newline>'' @ y) (map render_line ls'))"
  let ?i1 = "i + length (render_line l)"
  have ok: "line_ok l" and oks': "list_all line_ok ls'" using oks Cons by simp_all
  have etl: "eol post" using e Cons by simp
  have j: "join_lines (map render_line ls) = render_line l @ ?more"
    using Cons by (simp add: join_lines_Cons)
  have d0: "drop i s = render_line l @ (?more @ post)"
    using d j by simp
  have e0: "eol (?more @ post)"
    using etl by (cases ls') (simp_all add: eol_def)
  have t: "tree_line s i = Some (Success ?i1 (line_value (line_no s i) l))"
    using tree_line_ok [OF ok d0 e0] .
  have d1: "drop ?i1 s = ?more @ post"
    using drop_step [OF d0] .
  have n1: "line_no s ?i1 = line_no s i"
    using line_no_step [OF d0] render_line_no_newline [OF ok] by (simp add: count_list_0)
  have st: "sep_line s (?i1 + length ?more) = Some Failure"
    using stop Cons j by (simp add: add.assoc)
  have loop: "times sep_line (- 1) \<infinity> s ?i1 =
                Some (Success (?i1 + length ?more) (values_from (line_no s ?i1 + 1) ls'))"
    using sep_loop_ok [OF oks' d1 etl st, of "[]" 0] by (simp add: times_def)
  show ?thesis
    using t loop
    by (simp add: sep_by_def alt_def add_p_def bind_def times_once success_def join_lines_Cons
        n1 Cons enumerate_simps add.assoc)
qed

lemma foldl_append_map: "foldl (\<lambda>output d. output @ [f d]) acc ds = acc @ map f ds"
  by (induction ds arbitrary: acc) simp_all

lemma parse_pom_tree_eq:
  "parse_pom_tree (Some text) u =
     (case parse pom_tree text of
        None \<Rightarrow> None
      | Some (Inl e) \<Rightarrow> Some []
      | Some (Inr ds) \<Rightarrow> Some (map found_dependency ds))"
proof (cases "parse pom_tree text")
  case None
  then show ?thesis by (simp add: parse_pom_tree_def safe_path_parse_def)
next
  case (Some r)
  show ?thesis
  proof (cases r)
    case (Inl e)
    then show ?thesis using Some by (simp add: parse_pom_tree_def safe_path_parse_def)
  next
    case (Inr ds)
    then show ?thesis using Some
      by (cases ds) (simp_all add: parse_pom_tree_def safe_path_parse_def foldl_append_map)
  qed
qed

lemma pom_tree_parse:
  assumes lab: "CHR ''\<newline>'' \<notin> set label"
    and oks: "list_all line_ok ls"
    and s: "s = label @ ''\<newline>'' @ join_lines (map render_line ls) @ post"
    and e: "ls \<noteq> [] \<longrightarrow> eol post"
    and stop: "if ls = [] then tree_line s (length label + 1) = Some Failure
               else sep_line s (length label + 1 + length (join_lines (map render_line ls))) = Some Failure"
  shows "parse pom_tree s =
           Some (if post = [] \<or> post = ''\<newline>'' then Inr (values_from 2 ls) else Inl ParseError)"
proof -
  let ?body = "join_lines (map render_line ls)"
  let ?i0 = "length label + 1"
  let ?j = "?i0 + length ?body"
  have d0: "drop 0 s = label @ (''\<newline>'' @ ?body @ post)"
    using s by simp
  have c: "consume_line s 0 = Some (Success (length label) label)"
    using consume_line_ok [OF d0 lab] by (simp add: eol_def)
  have d1: "drop (length label) s = ''\<newline>'' @ (?body @ post)"
    using s by simp
  have nl: "string_p ''\<newline>'' s (length label) = Some (Success ?i0 ''\<newline>'')"
    using string_p_ok [OF d1] by simp
  have d2: "drop ?i0 s = ?body @ post"
    using s by simp
  have n0: "line_no s (length label) = 1"
    using lab s by (simp add: line_no_def count_list_0)
  have n2: "line_no s ?i0 = 2"
    using line_no_step [OF d1] n0 by simp
  have sb: "sep_by tree_line (string_p ''\<newline>'') s ?i0 = Some (Success ?j (values_from 2 ls))"
    using sep_by_ok [OF oks d2 e stop] n2 by simp
  have d3: "drop ?j s = post"
    using s by simp
  have len: "length s = ?j + length post"
    using s by simp
  have front: "then_p (then_p consume_line (string_p ''\<newline>'')) (sep_by tree_line (string_p ''\<newline>'')) s 0
                 = Some (Success ?j (values_from 2 ls))"
    using c nl sb by (simp add: then_p_def bind_def)
  consider (none) "post = []" | (one) "post = ''\<newline>''"
    | (more) x where "post = CHR ''\<newline>'' # x" "x \<noteq> []"
    | (other) c x where "post = c # x" "c \<noteq> CHR ''\<newline>''"
    by (cases post) auto
  then show ?thesis
  proof cases
    case none
    then have "string_p ''\<newline>'' s ?j = Some Failure"
      using d3 by (simp add: string_p_def)
    then have "pom_tree s 0 = Some (Success ?j (values_from 2 ls))"
      using front by (simp add: pom_tree_def skip_def bind_def optional_eval success_def)
    then show ?thesis
      using none len by (simp add: parse_def skip_def bind_def eof_def success_def)
  next
    case one
    then have "string_p ''\<newline>'' s ?j = Some (Success (?j + 1) ''\<newline>'')"
      using string_p_ok [of ?j s "''\<newline>''" "[]"] d3 by simp
    then have "pom_tree s 0 = Some (Success (?j + 1) (values_from 2 ls))"
      using front by (simp add: pom_tree_def skip_def bind_def optional_eval success_def)
    then show ?thesis
      using one len by (simp add: parse_def skip_def bind_def eof_def success_def)
  next
    case more
    then have "string_p ''\<newline>'' s ?j = Some (Success (?j + 1) ''\<newline>'')"
      using string_p_ok [of ?j s "''\<newline>''" x] d3 by simp
    then have "pom_tree s 0 = Some (Success (?j + 1) (values_from 2 ls))"
      using front by (simp add: pom_tree_def skip_def bind_def optional_eval success_def)
    then show ?thesis
      using more len by (simp add: parse_def skip_def bind_def eof_def success_def)
  next
    case other
    then have "string_p ''\<newline>'' s ?j = Some Failure"
      using d3 by (simp add: string_p_def)
    then have "pom_tree s 0 = Some (Success ?j (values_from 2 ls))"
      using front by (simp add: pom_tree_def skip_def bind_def optional_eval success_def)
    then show ?thesis
      using other len by (simp add: parse_def skip_def bind_def eof_def success_def)
  qed
qed

lemma well_formed_stop:
  assumes s: "s = label @ ''\<newline>'' @ join_lines (map render_line ls) @ post"
    and post: "post = [] \<or> post = ''\<newline>''"
  shows "if ls = [] then tree_line s (length label + 1) = Some Failure
         else sep_line s (length label + 1 + length (join_lines (map render_line ls))) = Some Failure"
proof (cases "ls = []")
  case True
  have "drop (length label + 1) s = post" using s True by simp
  then have "tree_line s (length label + 1) = Some Failure"
    using post by (intro tree_line_stop) (auto simp: eol_def)
  then show ?thesis using True by simp
next
  case False
  let ?j = "length label + 1 + length (join_lines (map render_line ls))"
  have d: "drop ?j s = post" using s by simp
  have "sep_line s ?j = Some Failure"
  proof (rule sep_line_stop)
    show "string_p ''\<newline>'' s ?j = Some Failure \<or> tree_line s (?j + 1) = Some Failure"
    proof (cases "post = []")
      case True
      then show ?thesis using d by (simp add: string_p_def)
    next
      case False
      then have "post = ''\<newline>''" using post by simp
      then have "drop (?j + 1) s = []" using s by simp
      then have "tree_line s (?j + 1) = Some Failure"
        by (intro tree_line_stop) (simp add: eol_def)
      then show ?thesis by simp
    qed
  qed
  then show ?thesis using False by simp
qed

lemma well_formed_parse:
  assumes lab: "CHR ''\<newline>'' \<notin> set label"
    and oks: "list_all line_ok ls"
    and post: "post = [] \<or> post = ''\<newline>''"
  shows "parse_pom_tree (Some (doc_of label (map render_line ls) @ post)) u =
           Some (map found_dependency (values_from 2 ls))"
proof -
  let ?s = "doc_of label (map render_line ls) @ post"
  have s: "?s = label @ ''\<newline>'' @ join_lines (map render_line ls) @ post"
    by (simp add: doc_of_def)
  have e: "ls \<noteq> [] \<longrightarrow> eol post" using post by (auto simp: eol_def)
  have "parse pom_tree ?s = Some (Inr (values_from 2 ls))"
    using pom_tree_parse [OF lab oks s e well_formed_stop [OF s post]] post by auto
  then show ?thesis by (simp add: parse_pom_tree_eq)
qed

lemma times_loop_invariant:
  assumes ret: "\<And>i. \<exists>r. p s i = Some r"
    and prog: "\<And>i j v. p s i = Some (Success j v) \<Longrightarrow> i < j \<and> j \<le> length s"
    and step: "\<And>i j v vs. I i vs \<Longrightarrow> p s i = Some (Success j v) \<Longrightarrow> I j (vs @ [v])"
    and init: "I i vals"
  shows "times_loop p mn \<infinity> s i vals n = Some Failure \<or>
         (\<exists>j vs. times_loop p mn \<infinity> s i vals n = Some (Success j vs) \<and> I j vs)"
  using init
proof (induction "length s - i" arbitrary: i vals n rule: less_induct)
  case less
  obtain r where r: "p s i = Some r" using ret by blast
  show ?case
  proof (cases r)
    case Failure
    then show ?thesis
      using r less.prems by (subst times_loop.simps, subst (2) times_loop.simps) simp
  next
    case (Success j v)
    then have pj: "p s i = Some (Success j v)" using r by simp
    then have lt: "length s - j < length s - i" using prog by fastforce
    have eq: "times_loop p mn \<infinity> s i vals n = times_loop p mn \<infinity> s j (vals @ [v]) (Suc n)"
      by (subst times_loop.simps) (simp add: pj)
    show ?thesis
      unfolding eq using less.hyps [OF lt step [OF less.prems pj]] .
  qed
qed

lemma string_p_inv:
  assumes "string_p lit s i = Some (Success j v)"
  shows "v = lit \<and> j = i + length lit \<and> drop i s = lit @ drop j s"
proof -
  have t: "take (length lit) (drop i s) = lit" and j: "j = i + length lit" and v: "v = lit"
    using assms by (auto simp: string_p_def split: if_splits)
  have "take (length lit) (drop i s) @ drop (length lit) (drop i s) = drop i s"
    by (rule append_take_drop_id)
  then have "drop i s = lit @ drop j s"
    using t j by (simp add: add.commute)
  then show ?thesis using j v by simp
qed

lemma upto_inv:
  assumes "upto d s i = Some (Success j f)"
  shows "f \<noteq> [] \<and> d \<notin> set f \<and> CHR ''\<newline>'' \<notin> set f \<and> j = i + length f + 1 \<and>
         drop i s = f @ d # drop j s"
proof -
  let ?P = "\<lambda>c. c \<noteq> d \<and> c \<noteq> CHR ''\<newline>''"
  have f: "f = takeWhile ?P (drop i s)" and ne: "f \<noteq> []" and j: "j = i + length f + 1"
    and t: "take 1 (drop (i + length f) s) = [d]"
    using assms by (auto simp: upto_def Let_def split: if_splits)
  have mem: "\<forall>c \<in> set f. ?P c"
    unfolding f by (auto dest: set_takeWhileD)
  have "take 1 (drop (i + length f) s) @ drop 1 (drop (i + length f) s) = drop (i + length f) s"
    by (rule append_take_drop_id)
  then have a: "drop (i + length f) s = d # drop j s"
    using t j by (simp add: add.commute)
  have sp: "drop i s = f @ dropWhile ?P (drop i s)"
    unfolding f by simp
  have "drop (i + length f) s = dropWhile ?P (drop i s)"
    using drop_step [OF sp] .
  then have "drop i s = f @ drop (i + length f) s"
    using sp by simp
  then have "drop i s = f @ d # drop j s"
    using a by simp
  then show ?thesis using ne j mem by auto
qed

lemma consume_line_inv:
  "\<exists>t. consume_line s i = Some (Success (i + length t) t) \<and> CHR ''\<newline>'' \<notin> set t \<and>
       drop i s = t @ drop (i + length t) s \<and> eol (drop (i + length t) s)"
proof -
  let ?P = "\<lambda>c. c \<noteq> CHR ''\<newline>''"
  let ?t = "takeWhile ?P (drop i s)"
  have a: "consume_line s i = Some (Success (i + length ?t) ?t)"
    by (simp add: consume_line_def Let_def)
  have b: "CHR ''\<newline>'' \<notin> set ?t"
    by (auto dest: set_takeWhileD)
  have split: "drop i s = ?t @ dropWhile ?P (drop i s)" by simp
  have c: "drop (i + length ?t) s = dropWhile ?P (drop i s)"
    using drop_step [OF split] .
  have d: "eol (dropWhile ?P (drop i s))"
    using hd_dropWhile [of ?P "drop i s"] by (auto simp: eol_def)
  show ?thesis
    using a b c d split by (intro exI [of _ ?t]) simp
qed

lemma returns_string_p: "returns (string_p lit)"
  by (simp add: returns_def string_p_def)

lemma returns_success: "returns (success v)"
  by (simp add: returns_def success_def)

lemma returns_upto: "returns (upto d)"
  by (simp add: returns_def upto_def Let_def)

lemma returns_consume_line: "returns consume_line"
  by (simp add: returns_def consume_line_def Let_def)

lemma returns_line_info: "returns line_info"
  by (simp add: returns_def line_info_def)

lemma returns_eof: "returns eof"
  by (simp add: returns_def eof_def)

lemma returns_bind:
  assumes "returns p" and "\<And>v. returns (f v)"
  shows "returns (bind p f)"
  unfolding returns_def
proof (intro allI)
  fix s i
  obtain r where r: "p s i = Some r" using assms(1) by (auto simp: returns_def)
  show "\<exists>r. bind p f s i = Some r"
  proof (cases r)
    case Failure
    then show ?thesis using r by (simp add: bind_def)
  next
    case (Success j v)
    then show ?thesis using r assms(2) [of v] by (simp add: bind_def returns_def)
  qed
qed

lemma returns_then_p: "returns p \<Longrightarrow> returns q \<Longrightarrow> returns (then_p p q)"
  by (simp add: then_p_def returns_bind)

lemma returns_skip: "returns p \<Longrightarrow> returns q \<Longrightarrow> returns (skip p q)"
  by (simp add: skip_def returns_bind returns_success)

lemma returns_map_p: "returns p \<Longrightarrow> returns (map_p p f)"
  by (simp add: map_p_def returns_bind returns_success)

lemma returns_add_p: "returns p \<Longrightarrow> returns q \<Longrightarrow> returns (add_p p q)"
  by (simp add: add_p_def returns_bind returns_success)

lemma returns_alt:
  assumes "returns p" and "returns q"
  shows "returns (alt p q)"
  unfolding returns_def
proof (intro allI)
  fix s i
  obtain r where r: "p s i = Some r" using assms(1) by (auto simp: returns_def)
  show "\<exists>r. alt p q s i = Some r"
    using r assms(2) by (cases r) (simp_all add: alt_def returns_def)
qed

lemma returns_times_once: "returns p \<Longrightarrow> returns (times p 1 1)"
  unfolding returns_def
proof (intro allI)
  fix s i
  assume "\<forall>s i. \<exists>r. p s i = Some r"
  then obtain r where r: "p s i = Some r" by blast
  show "\<exists>r. times p 1 1 s i = Some r"
    using r by (cases r) (simp_all add: times_once)
qed

lemma returns_optional: "returns p \<Longrightarrow> returns (optional p)"
  unfolding returns_def
proof (intro allI)
  fix s i
  assume "\<forall>s i. \<exists>r. p s i = Some r"
  then obtain r where r: "p s i = Some r" by blast
  show "\<exists>r. optional p s i = Some r"
    using r by (cases r) (simp_all add: optional_eval)
qed

lemma returns_times:
  assumes "returns p" and "advances p"
  shows "returns (times p mn \<infinity>)"
  unfolding returns_def
proof (intro allI)
  fix s i
  have "times_loop p mn \<infinity> s i [] 0 = Some Failure \<or>
        (\<exists>j vs. times_loop p mn \<infinity> s i [] 0 = Some (Success j vs) \<and> True)"
  proof (rule times_loop_invariant)
    show "\<exists>r. p s i = Some r" for i
      using assms(1) by (simp add: returns_def)
    show "i < j \<and> j \<le> length s" if "p s i = Some (Success j v)" for i j v
      using that assms(2) unfolding advances_def by blast
  qed simp_all
  then show "\<exists>r. times p mn \<infinity> s i = Some r"
    by (auto simp: times_def)
qed

lemma alt_inv:
  assumes "alt p q s i = Some (Success j v)"
  shows "p s i = Some (Success j v) \<or> (p s i = Some Failure \<and> q s i = Some (Success j v))"
  using assms by (auto simp: alt_def split: option.splits result.splits)

lemma bind_inv:
  assumes "bind p f s i = Some (Success j v)"
  shows "\<exists>k w. p s i = Some (Success k w) \<and> f w s k = Some (Success j v)"
  using assms by (auto simp: bind_def split: option.splits result.splits)

lemma marker_inv:
  assumes "marker s i = Some (Success j m)"
  shows "marker_ok m \<and> j = i + 3 \<and> drop i s = m @ drop j s"
  using alt_inv [OF assms] string_p_inv [of "''|  ''" s i j m] string_p_inv [of "''   ''" s i j m]
  by (auto simp: marker_ok_def)

lemma glyph_inv:
  assumes "glyph s i = Some (Success j g)"
  shows "glyph_ok g \<and> j = i + 3 \<and> drop i s = g @ drop j s"
  using alt_inv [OF assms] string_p_inv [of "''+- ''" s i j g]
    string_p_inv [of "[CHR 0x5C, CHR ''-'', CHR '' '']" s i j g]
  by (auto simp: glyph_ok_def)

lemma drop_bound:
  assumes "drop i s = x @ drop j s" and "j = i + length x" and "x \<noteq> []"
  shows "i < j \<and> j \<le> length s"
proof -
  have "length (drop i s) = length x + length (drop j s)"
    using assms(1) by (metis length_append)
  then have a: "length s - i = length x + (length s - j)" by simp
  have b: "0 < length x" using assms(3) by simp
  show ?thesis using a b assms(2) by arith
qed

lemma returns_marker: "returns marker"
  by (simp add: returns_alt returns_string_p)

lemma advances_marker: "advances marker"
  unfolding advances_def
proof (intro allI impI)
  fix s i j v
  assume "marker s i = Some (Success j v)"
  then have "marker_ok v \<and> j = i + 3 \<and> drop i s = v @ drop j s" by (rule marker_inv)
  then show "i < j \<and> j \<le> length s"
    by (intro drop_bound [of i s v j]) (auto simp: marker_ok_def)
qed

lemma indent_inv:
  assumes "alt (at_least marker 1) (success []) s i = Some (Success j ms)"
  shows "list_all marker_ok ms \<and> j = i + length (concat ms) \<and> drop i s = concat ms @ drop j s"
proof -
  let ?I = "\<lambda>k vs. list_all marker_ok vs \<and> k = i + length (concat vs) \<and> drop i s = concat vs @ drop k s"
  have loop: "times_loop marker 1 \<infinity> s i [] 0 = Some Failure \<or>
        (\<exists>k vs. times_loop marker 1 \<infinity> s i [] 0 = Some (Success k vs) \<and> ?I k vs)"
  proof (rule times_loop_invariant)
    show "\<exists>r. marker s i = Some r" for i
      using returns_marker by (simp add: returns_def)
    show "i < j \<and> j \<le> length s" if "marker s i = Some (Success j v)" for i j v
      using that advances_marker by (auto simp: advances_def)
    show "?I k' (vs @ [v])" if "?I k vs" and "marker s k = Some (Success k' v)" for k k' v vs
      using that(1) marker_inv [OF that(2)] by (auto simp: marker_ok_def)
    show "?I i []" by simp
  qed
  from alt_inv [OF assms] show ?thesis
  proof
    assume "at_least marker 1 s i = Some (Success j ms)"
    then show ?thesis using loop by (auto simp: at_least_def times_def)
  next
    assume "at_least marker 1 s i = Some Failure \<and> success [] s i = Some (Success j ms)"
    then show ?thesis by (auto simp: success_def)
  qed
qed

lemma dep_inv:
  assumes "dep s i = Some (Success j v)"
  shows "\<exists>f1 f3 t. seg_ok f1 \<and> seg_ok (fst v) \<and> seg_ok f3 \<and> seg_ok (snd v) \<and>
           CHR ''\<newline>'' \<notin> set t \<and> eol (drop j s) \<and>
           j = i + length (f1 @ '':'' @ fst v @ '':'' @ f3 @ '':'' @ snd v @ '':'' @ t) \<and>
           drop i s = (f1 @ '':'' @ fst v @ '':'' @ f3 @ '':'' @ snd v @ '':'' @ t) @ drop j s"
proof -
  from assms obtain i1 f1 where u1: "upto CHR '':'' s i = Some (Success i1 f1)"
    and r1: "bind (upto CHR '':'') (\<lambda>pkg. then_p (upto CHR '':'')
              (bind (upto CHR '':'') (\<lambda>ver. skip (success (pkg, ver)) consume_line))) s i1
             = Some (Success j v)"
    unfolding dep_def then_p_def by (blast dest: bind_inv)
  from bind_inv [OF r1] obtain i2 f2 where u2: "upto CHR '':'' s i1 = Some (Success i2 f2)"
    and r2: "then_p (upto CHR '':'')
              (bind (upto CHR '':'') (\<lambda>ver. skip (success (f2, ver)) consume_line)) s i2
             = Some (Success j v)"
    by blast
  from r2 obtain i3 f3 where u3: "upto CHR '':'' s i2 = Some (Success i3 f3)"
    and r3: "bind (upto CHR '':'') (\<lambda>ver. skip (success (f2, ver)) consume_line) s i3
             = Some (Success j v)"
    unfolding then_p_def by (blast dest: bind_inv)
  from bind_inv [OF r3] obtain i4 f4 where u4: "upto CHR '':'' s i3 = Some (Success i4 f4)"
    and r4: "skip (success (f2, f4)) consume_line s i4 = Some (Success j v)"
    by blast
  obtain t where c: "consume_line s i4 = Some (Success (i4 + length t) t)"
    and t: "CHR ''\<newline>'' \<notin> set t" and dt: "drop i4 s = t @ drop (i4 + length t) s"
    and e: "eol (drop (i4 + length t) s)"
    using consume_line_inv [of s i4] by blast
  have v: "v = (f2, f4)" and j: "j = i4 + length t"
    using r4 c by (auto simp: skip_def bind_def success_def)
  note a1 = upto_inv [OF u1] and a2 = upto_inv [OF u2] and a3 = upto_inv [OF u3] and a4 = upto_inv [OF u4]
  have segs: "seg_ok f1" "seg_ok f2" "seg_ok f3" "seg_ok f4"
    using a1 a2 a3 a4 by (simp_all add: seg_ok_def)
  have jj: "j = i + length (f1 @ '':'' @ f2 @ '':'' @ f3 @ '':'' @ f4 @ '':'' @ t)"
    using a1 a2 a3 a4 j by simp
  have "drop i s = f1 @ '':'' @ drop i1 s" using a1 by simp
  also have "drop i1 s = f2 @ '':'' @ drop i2 s" using a2 by simp
  also have "drop i2 s = f3 @ '':'' @ drop i3 s" using a3 by simp
  also have "drop i3 s = f4 @ '':'' @ drop i4 s" using a4 by simp
  also have "drop i4 s = t @ drop j s" using dt j by simp
  finally have dd: "drop i s = (f1 @ '':'' @ f2 @ '':'' @ f3 @ '':'' @ f4 @ '':'' @ t) @ drop j s"
    by simp
  show ?thesis
    unfolding v fst_conv snd_conv using segs t e jj dd unfolding j by blast
qed

lemma returns_dep: "returns dep"
  unfolding dep_def
  by (intro returns_then_p returns_bind returns_skip returns_upto returns_success returns_consume_line)

lemma returns_tree_line: "returns tree_line"
  unfolding tree_line_def mark_line_def at_least_def
  by (intro returns_bind returns_then_p returns_map_p returns_alt returns_times returns_string_p
      returns_success returns_line_info returns_dep advances_marker)

lemma tree_line_inv:
  assumes "tree_line s i = Some (Success j v)"
  shows "\<exists>l. line_ok l \<and> j = i + length (render_line l) \<and> drop i s = render_line l @ drop j s \<and>
           v = line_value (line_no s i) l \<and> eol (drop j s)"
proof -
  from assms obtain w where w: "bind (alt (at_least marker 1) (success []))
          (\<lambda>depth. then_p glyph (map_p dep (\<lambda>d.
              (if length depth > 0 then Transitive else Direct, fst d, snd d)))) s i = Some (Success j w)"
    and v: "v = (line_no s i, w)"
    by (auto simp: tree_line_def mark_line_def bind_def map_p_def success_def line_info_def line_no_def
        split: option.splits result.splits)
  from bind_inv [OF w] obtain i1 ms where ind: "alt (at_least marker 1) (success []) s i = Some (Success i1 ms)"
    and r1: "then_p glyph (map_p dep (\<lambda>d.
              (if length ms > 0 then Transitive else Direct, fst d, snd d))) s i1 = Some (Success j w)"
    by blast
  from r1 obtain i2 g where gl: "glyph s i1 = Some (Success i2 g)"
    and r2: "map_p dep (\<lambda>d. (if length ms > 0 then Transitive else Direct, fst d, snd d)) s i2
               = Some (Success j w)"
    unfolding then_p_def by (blast dest: bind_inv)
  from r2 obtain d where dp: "dep s i2 = Some (Success j d)"
    and wv: "w = (if length ms > 0 then Transitive else Direct, fst d, snd d)"
    by (auto simp: map_p_def bind_def success_def split: option.splits result.splits)
  from dep_inv [OF dp] obtain f1 f3 t where segs: "seg_ok f1" "seg_ok (fst d)" "seg_ok f3" "seg_ok (snd d)"
    and t: "CHR ''\<newline>'' \<notin> set t" and e: "eol (drop j s)"
    and j: "j = i2 + length (f1 @ '':'' @ fst d @ '':'' @ f3 @ '':'' @ snd d @ '':'' @ t)"
    and dd: "drop i2 s = (f1 @ '':'' @ fst d @ '':'' @ f3 @ '':'' @ snd d @ '':'' @ t) @ drop j s"
    by blast
  note a = indent_inv [OF ind] and b = glyph_inv [OF gl]
  define l where "l = \<lparr>l_indent = ms, l_glyph = g, l_group = f1, l_artifact = fst d,
                         l_packaging = f3, l_version = snd d, l_tail = t\<rparr>"
  have ok: "line_ok l"
    using a b segs t by (simp add: line_ok_def l_def)
  have glen: "length g = 3" using b by (auto simp: glyph_ok_def)
  have jj: "j = i + length (render_line l)"
    using a b j glen by (simp add: render_line_def coordinate_def l_def)
  have "drop i s = concat ms @ drop i1 s" using a by simp
  also have "drop i1 s = g @ drop i2 s" using b by simp
  also note dd
  finally have "drop i s = render_line l @ drop j s"
    by (simp add: render_line_def coordinate_def l_def)
  moreover have "v = line_value (line_no s i) l"
    using v wv by (simp add: line_value_def l_def)
  ultimately show ?thesis using ok jj e by blast
qed

lemma split_lines_line:
  "CHR ''\<newline>'' \<notin> set x \<Longrightarrow> split_lines (x @ CHR ''\<newline>'' # y) = x # split_lines y"
  by (induction x) auto

lemma split_lines_last: "CHR ''\<newline>'' \<notin> set x \<Longrightarrow> split_lines x = [x]"
  by (induction x) auto

lemma split_lines_join:
  assumes "\<forall>x \<in> set (l # ls). CHR ''\<newline>'' \<notin> set x" and "post = [] \<or> post = ''\<newline>''"
  shows "split_lines (join_lines (l # ls) @ post) = (l # ls) @ (if post = [] then [] else [[]])"
  using assms(1)
proof (induction ls arbitrary: l)
  case Nil
  then show ?case
    using assms(2) split_lines_line [of l "[]"] by (auto simp: split_lines_last)
next
  case (Cons a ls)
  have "split_lines (join_lines (l # a # ls) @ post) = l # split_lines (join_lines (a # ls) @ post)"
    using Cons.prems split_lines_line [of l "join_lines (a # ls) @ post"] by simp
  then show ?case using Cons by simp
qed

lemma split_lines_doc:
  assumes lab: "CHR ''\<newline>'' \<notin> set label" and oks: "list_all line_ok ls"
    and post: "post = [] \<or> post = ''\<newline>''" and ne: "ls \<noteq> []"
  shows "split_lines (doc_of label (map render_line ls) @ post) =
           label # map render_line ls @ (if post = [] then [] else [[]])"
proof -
  obtain l ls' where ls: "ls = l # ls'" using ne by (cases ls) auto
  have nn: "\<forall>x \<in> set (render_line l # map render_line ls'). CHR ''\<newline>'' \<notin> set x"
    using oks ls render_line_no_newline by (auto simp: list_all_iff)
  have "split_lines (doc_of label (map render_line ls) @ post) =
          label # split_lines (join_lines (render_line l # map render_line ls') @ post)"
    using split_lines_line [OF lab] ls by (simp add: doc_of_def)
  then show ?thesis
    using split_lines_join [OF nn post] ls by simp
qed

lemma render_line_nonempty: "line_ok l \<Longrightarrow> render_line l \<noteq> []"
  by (auto simp: line_ok_def render_line_def glyph_ok_def)

lemma advances_tree_line: "advances tree_line"
  unfolding advances_def
proof (intro allI impI)
  fix s i j v
  assume "tree_line s i = Some (Success j v)"
  from tree_line_inv [OF this] obtain l where "line_ok l" "j = i + length (render_line l)"
    "drop i s = render_line l @ drop j s" by blast
  then show "i < j \<and> j \<le> length s"
    using render_line_nonempty by (intro drop_bound [of i s "render_line l" j]) simp_all
qed

lemma advances_sep_line: "advances sep_line"
  unfolding advances_def
proof (intro allI impI)
  fix s i j v
  assume a: "sep_line s i = Some (Success j v)"
  then obtain k w where k: "string_p ''\<newline>'' s i = Some (Success k w)"
    and t: "tree_line s k = Some (Success j v)"
    unfolding then_p_def by (blast dest: bind_inv)
  have "k = i + 1" using string_p_inv [OF k] by simp
  moreover have "k < j \<and> j \<le> length s" using t advances_tree_line unfolding advances_def by blast
  ultimately show "i < j \<and> j \<le> length s" by simp
qed

lemma returns_pom_tree: "returns pom_tree"
  unfolding pom_tree_def sep_by_def
  by (intro returns_skip returns_then_p returns_alt returns_add_p returns_times_once returns_times
      returns_optional returns_consume_line returns_string_p returns_tree_line returns_success
      advances_sep_line)

lemma parse_pom_tree_returns: "\<exists>out. parse_pom_tree tree_path u = Some out"
proof (cases tree_path)
  case None
  then show ?thesis by (simp add: parse_pom_tree_def safe_path_parse_def)
next
  case (Some doc)
  have "returns (skip pom_tree eof)"
    by (intro returns_skip returns_pom_tree returns_eof)
  then obtain r where "skip pom_tree eof doc 0 = Some r" by (auto simp: returns_def)
  then obtain e where "parse pom_tree doc = Some e"
    by (cases r) (simp_all add: parse_def)
  then show ?thesis unfolding Some parse_pom_tree_eq
    by (cases e) simp_all
qed

lemma indent_length: "list_all marker_ok ms \<Longrightarrow> length (concat ms) = 3 * length ms"
  by (induction ms) (auto simp: marker_ok_def)

lemma found_values:
  "map found_dependency (values_from k ls) =
     map (\<lambda>(n, l). \<lparr>package = l_artifact l, version = l_version l, ecosystem = Maven,
                     allowed_hashes = [],
                     transitivity = (if l_indent l = [] then Direct else Transitive),
                     line_number = n\<rparr>) (List.enumerate k ls)"
  by (simp add: found_dependency_def line_value_def case_prod_unfold)

lemma bad_line_parse:
  assumes lab: "CHR ''\<newline>'' \<notin> set label"
    and oks: "list_all line_ok ls"
    and bad: "bad \<noteq> []" "CHR ''\<newline>'' \<notin> set bad"
    and s: "s = doc_of label (map render_line ls @ bad # others)"
    and fails: "tree_line s (length s - length (join_lines (bad # others))) = Some Failure"
  shows "parse pom_tree s = Some (Inl ParseError)"
proof -
  let ?body = "join_lines (map render_line ls)"
  let ?post = "(if ls = [] then [] else ''\<newline>'') @ join_lines (bad # others)"
  have jl: "join_lines (map render_line ls @ bad # others) = ?body @ ?post"
  proof (cases ls)
    case Nil
    then show ?thesis by simp
  next
    case (Cons l ls')
    then show ?thesis by (simp add: join_lines_Cons)
  qed
  have s': "s = label @ ''\<newline>'' @ ?body @ ?post"
    using s jl by (simp add: doc_of_def)
  have e: "ls \<noteq> [] \<longrightarrow> eol ?post" by (simp add: eol_def)
  have pos: "length s - length (join_lines (bad # others)) =
               length label + 1 + length ?body + (if ls = [] then 0 else 1)"
    using s' by simp
  have stop: "if ls = [] then tree_line s (length label + 1) = Some Failure
              else sep_line s (length label + 1 + length ?body) = Some Failure"
  proof (cases "ls = []")
    case True
    then show ?thesis using fails pos by simp
  next
    case False
    then have "tree_line s (length label + 1 + length ?body + 1) = Some Failure"
      using fails pos by simp
    then have "sep_line s (length label + 1 + length ?body) = Some Failure"
      by (intro sep_line_stop) simp
    then show ?thesis using False by simp
  qed
  have ne: "\<not> (?post = [] \<or> ?post = ''\<newline>'')"
    using bad by (cases bad) (auto simp: join_lines_Cons)
  show ?thesis
    using pom_tree_parse [OF lab oks s' e stop] ne by presburger
qed

lemma nonblank_lines:
  "list_all line_ok ls \<Longrightarrow> filter (\<lambda>x. x \<noteq> []) (map render_line ls) = map render_line ls"
  by (induction ls) (simp_all add: render_line_nonempty)

lemma count_nonblank:
  assumes lab: "CHR ''\<newline>'' \<notin> set label" and oks: "list_all line_ok ls"
    and post: "post = [] \<or> post = ''\<newline>''"
  shows "length (filter (\<lambda>x. x \<noteq> []) (tl (split_lines (doc_of label (map render_line ls) @ post))))
           = length ls"
proof (cases "ls = []")
  case True
  have "split_lines (label @ ''\<newline>'' @ post) = label # split_lines post"
    using split_lines_line [OF lab, of post] by simp
  then show ?thesis using True post by (auto simp: doc_of_def)
next
  case False
  have "length (filter (\<lambda>x. x \<noteq> []) (map render_line ls)) = length ls"
    using nonblank_lines [OF oks] by simp
  then show ?thesis
    using split_lines_doc [OF lab oks post False] by simp
qed


















section \<open>The claims\<close>

text \<open>
  C1: whatever the input, \<open>parse_pom_tree\<close> returns a list; when the file cannot be read
  or the grammar rejects the document it returns the empty list, which is also what it
  returns for a document that holds the root label and no dependency line.
\<close>

theorem parse_pom_tree_swallows_failure:
  "(\<exists>out. parse_pom_tree tree_path u = Some out) \<and>
   (tree_path = None \<or> (\<exists>doc. tree_path = Some doc \<and> parse pom_tree doc = Some (Inl ParseError))
      \<longrightarrow> parse_pom_tree tree_path u = Some []) \<and>
   (CHR ''\<newline>'' \<notin> set label \<longrightarrow> parse_pom_tree (Some (doc_of label [])) u = Some [])"
proof (intro conjI impI)
  show "\<exists>out. parse_pom_tree tree_path u = Some out"
    by (rule parse_pom_tree_returns)
next
  assume "tree_path = None \<or> (\<exists>doc. tree_path = Some doc \<and> parse pom_tree doc = Some (Inl ParseError))"
  then show "parse_pom_tree tree_path u = Some []"
  proof
    assume "tree_path = None"
    then show ?thesis by (simp add: parse_pom_tree_def safe_path_parse_def)
  next
    assume "\<exists>doc. tree_path = Some doc \<and> parse pom_tree doc = Some (Inl ParseError)"
    then show ?thesis by (auto simp: parse_pom_tree_eq)
  qed
next
  assume "CHR ''\<newline>'' \<notin> set label"
  then show "parse_pom_tree (Some (doc_of label [])) u = Some []"
    using well_formed_parse [of label "[]" "[]" u] by (simp add: enumerate_simps)
qed

theorem parse_pom_tree_swallows_failure_witness:
  "parse_pom_tree None None = Some [] \<and>
   parse_pom_tree (Some ''root\<newline>+- g:a:jar'') None = Some [] \<and>
   parse_pom_tree (Some ''root\<newline>'') None = Some []"
proof -
  have h: "parse pom_tree ''root\<newline>+- g:a:jar'' = Some (Inl ParseError)"
    by code_simp
  show ?thesis
    using parse_pom_tree_swallows_failure [of None None "''root''"]
      parse_pom_tree_swallows_failure [of "Some ''root\<newline>+- g:a:jar''" None "''root''"] h
    by (simp add: doc_of_def)
qed

text \<open>
  C2: on a coordinate of four colon-terminated segments followed by a tail that runs to
  the end of the line, \<open>dep\<close> returns the second segment as the name and the fourth as
  the version, and stops at the end of the line: the first and third segments and the
  whole tail, further colons included, are consumed and dropped.
\<close>

theorem dep_keeps_second_and_fourth:
  assumes "seg_ok f1" and "seg_ok f2" and "seg_ok f3" and "seg_ok f4"
    and "CHR ''\<newline>'' \<notin> set t" and "eol rest"
    and "drop i s = f1 @ '':'' @ f2 @ '':'' @ f3 @ '':'' @ f4 @ '':'' @ t @ rest"
  shows "dep s i =
           Some (Success (i + length (f1 @ '':'' @ f2 @ '':'' @ f3 @ '':'' @ f4 @ '':'' @ t)) (f2, f4))"
  using dep_ok [OF assms(7) assms(1-6)] .

theorem dep_keeps_second_and_fourth_witness:
  "dep ''+- org.apache.logging.log4j:log4j-api:jar:0.0.2:compile:x:y'' 3 =
     Some (Success 59 (''log4j-api'', ''0.0.2''))"
  using dep_keeps_second_and_fourth [of "''org.apache.logging.log4j''" "''log4j-api''" "''jar''"
      "''0.0.2''" "''compile:x:y''" "[]" 3
      "''+- org.apache.logging.log4j:log4j-api:jar:0.0.2:compile:x:y''"]
  by (simp add: seg_ok_def eol_def)




text \<open>
  C4: on a dependency line the indentation parser returns exactly the markers in front of
  the branch glyph, whichever of the two spellings each one has, so the depth is their
  number; the value of \<open>tree_line\<close> is \<open>Direct\<close> when that number is 0 and
  \<open>Transitive\<close> otherwise, and it does not depend on the branch glyph.
\<close>

theorem depth_decides_transitivity:
  assumes "line_ok l" and "drop i s = render_line l @ rest" and "eol rest"
  shows "alt (at_least (alt (string_p ''|  '') (string_p ''   '')) 1) (success []) s i =
           Some (Success (i + 3 * length (l_indent l)) (l_indent l)) \<and>
         tree_line s i =
           Some (Success (i + length (render_line l))
                   (line_no s i, if length (l_indent l) = 0 then Direct else Transitive,
                    l_artifact l, l_version l))"
proof
  have ms: "list_all marker_ok (l_indent l)" and g: "glyph_ok (l_glyph l)"
    using assms(1) by (simp_all add: line_ok_def)
  have d: "drop i s = concat (l_indent l) @ (l_glyph l @ coordinate l @ rest)"
    using assms(2) by (simp add: render_line_def)
  have "hd (l_glyph l @ coordinate l @ rest) \<noteq> CHR ''|'' \<and> hd (l_glyph l @ coordinate l @ rest) \<noteq> CHR '' ''"
    using g by (auto simp: glyph_ok_def)
  then show "alt (at_least marker 1) (success []) s i =
           Some (Success (i + 3 * length (l_indent l)) (l_indent l))"
    using indent_ok [OF ms d] indent_length [OF ms] by simp
next
  show "tree_line s i =
           Some (Success (i + length (render_line l))
                   (line_no s i, if length (l_indent l) = 0 then Direct else Transitive,
                    l_artifact l, l_version l))"
    using tree_line_ok [OF assms] by (simp add: line_value_def)
qed

theorem depth_decides_transitivity_witness:
  "alt (at_least (alt (string_p ''|  '') (string_p ''   '')) 1) (success [])
     (''|     '' @ [CHR 0x5C] @ ''- org.codehaus.plexus:plexus-component-annotations:jar:1.5.5:provided'') 0 =
     Some (Success 6 [''|  '', ''   '']) \<and>
   tree_line
     (''|     '' @ [CHR 0x5C] @ ''- org.codehaus.plexus:plexus-component-annotations:jar:1.5.5:provided'') 0 =
     Some (Success 76 (1, Transitive, ''plexus-component-annotations'', ''1.5.5''))"
  using depth_decides_transitivity [of
      "\<lparr>l_indent = [''|  '', ''   ''], l_glyph = [CHR 0x5C, CHR ''-'', CHR '' ''],
        l_group = ''org.codehaus.plexus'', l_artifact = ''plexus-component-annotations'',
        l_packaging = ''jar'', l_version = ''1.5.5'', l_tail = ''provided''\<rparr>" 0
      "''|     '' @ [CHR 0x5C] @ ''- org.codehaus.plexus:plexus-component-annotations:jar:1.5.5:provided''"
      "[]"]
  by (simp add: line_ok_def marker_ok_def glyph_ok_def seg_ok_def eol_def render_line_def
      coordinate_def line_no_def)

text \<open>
  C5: in a well-formed document, with or without the final newline, the record of the
  \<open>k\<close>-th dependency line carries the line number \<open>k + 2\<close> (the root label is line 1),
  and the line of the document at that 1-based position is the line the record's name
  and version were read from.
\<close>

theorem line_number_is_position:
  assumes "CHR ''\<newline>'' \<notin> set label" and "list_all line_ok ls"
    and "post = [] \<or> post = ''\<newline>''" and "k < length ls"
  shows "\<exists>out. parse_pom_tree (Some (doc_of label (map render_line ls) @ post)) u = Some out \<and>
           length out = length ls \<and> line_number (out ! k) = k + 2 \<and>
           split_lines (doc_of label (map render_line ls) @ post) ! (line_number (out ! k) - 1)
             = render_line (ls ! k) \<and>
           package (out ! k) = l_artifact (ls ! k) \<and> version (out ! k) = l_version (ls ! k)"
proof -
  let ?out = "map found_dependency (values_from 2 ls)"
  have ne: "ls \<noteq> []" using assms(4) by auto
  have p: "parse_pom_tree (Some (doc_of label (map render_line ls) @ post)) u = Some ?out"
    using well_formed_parse [OF assms(1-3)] .
  have k: "?out ! k = found_dependency (line_value (2 + k) (ls ! k))"
    using assms(4) by (simp add: nth_enumerate_eq)
  have n: "line_number (?out ! k) = k + 2"
    unfolding k by (simp add: found_dependency_def line_value_def)
  have "split_lines (doc_of label (map render_line ls) @ post) ! (k + 1) = render_line (ls ! k)"
    using split_lines_doc [OF assms(1-3) ne] assms(4) by (simp add: nth_append)
  then have sl: "split_lines (doc_of label (map render_line ls) @ post) ! (line_number (?out ! k) - 1)
             = render_line (ls ! k)"
    unfolding n by simp
  have nv: "package (?out ! k) = l_artifact (ls ! k) \<and> version (?out ! k) = l_version (ls ! k)"
    unfolding k by (simp add: found_dependency_def line_value_def)
  show ?thesis
    using p n sl nv by (intro exI [of _ ?out]) simp
qed

theorem line_number_is_position_witness:
  "\<exists>out. parse_pom_tree (Some ''root\<newline>+- g:a:jar:1.0:compile\<newline>|  +- h:b:jar:2.0:test\<newline>'') None
            = Some out \<and>
      length out = 2 \<and> line_number (out ! 1) = 3 \<and>
      split_lines ''root\<newline>+- g:a:jar:1.0:compile\<newline>|  +- h:b:jar:2.0:test\<newline>''
        ! (line_number (out ! 1) - 1) = ''|  +- h:b:jar:2.0:test'' \<and>
      package (out ! 1) = ''b'' \<and> version (out ! 1) = ''2.0''"
  using line_number_is_position [of "''root''"
      "[\<lparr>l_indent = [], l_glyph = ''+- '', l_group = ''g'', l_artifact = ''a'',
          l_packaging = ''jar'', l_version = ''1.0'', l_tail = ''compile''\<rparr>,
        \<lparr>l_indent = [''|  ''], l_glyph = ''+- '', l_group = ''h'', l_artifact = ''b'',
          l_packaging = ''jar'', l_version = ''2.0'', l_tail = ''test''\<rparr>]"
      "''\<newline>''" 1 None]
  by (simp add: line_ok_def marker_ok_def glyph_ok_def seg_ok_def render_line_def
      coordinate_def doc_of_def eval_nat_numeral)

text \<open>
  C6: a well-formed document gives as many records as it has non-blank lines after the
  root label; a document in which the line classifier fails on some non-empty line gives
  no record at all, whatever was parsed before that line.
\<close>

theorem one_record_per_line_or_none:
  assumes "CHR ''\<newline>'' \<notin> set label" and "list_all line_ok ls"
    and "post = [] \<or> post = ''\<newline>''"
    and "bad \<noteq> []" and "CHR ''\<newline>'' \<notin> set bad"
    and "tree_line (doc_of label (map render_line ls @ bad # others))
           (length (doc_of label (map render_line ls @ bad # others)) - length (join_lines (bad # others)))
         = Some Failure"
  shows "map_option length (parse_pom_tree (Some (doc_of label (map render_line ls) @ post)) u) =
           Some (length (filter (\<lambda>x. x \<noteq> [])
                   (tl (split_lines (doc_of label (map render_line ls) @ post))))) \<and>
         length ls = length (filter (\<lambda>x. x \<noteq> [])
                   (tl (split_lines (doc_of label (map render_line ls) @ post)))) \<and>
         parse_pom_tree (Some (doc_of label (map render_line ls @ bad # others))) u = Some []"
proof -
  have a: "parse_pom_tree (Some (doc_of label (map render_line ls) @ post)) u =
             Some (map found_dependency (values_from 2 ls))"
    using well_formed_parse [OF assms(1-3)] .
  have b: "length (filter (\<lambda>x. x \<noteq> []) (tl (split_lines (doc_of label (map render_line ls) @ post))))
             = length ls"
    using count_nonblank [OF assms(1-3)] .
  have "parse pom_tree (doc_of label (map render_line ls @ bad # others)) = Some (Inl ParseError)"
    using bad_line_parse [OF assms(1,2,4,5) refl assms(6)] .
  then have c: "parse_pom_tree (Some (doc_of label (map render_line ls @ bad # others))) u = Some []"
    by (simp add: parse_pom_tree_eq)
  show ?thesis using a b c by simp
qed

theorem one_record_per_line_or_none_witness:
  "map_option length (parse_pom_tree (Some ''root\<newline>+- g:a:jar:1.0:compile\<newline>'') None) = Some 1 \<and>
   length (filter (\<lambda>x. x \<noteq> []) (tl (split_lines ''root\<newline>+- g:a:jar:1.0:compile\<newline>''))) = 1 \<and>
   parse_pom_tree (Some ''root\<newline>+- g:a:jar:1.0:compile\<newline>-- h:b:jar:2.0:test\<newline>+- i:c:jar:3:x'') None
     = Some []"
proof -
  let ?l = "\<lparr>l_indent = [], l_glyph = ''+- '', l_group = ''g'', l_artifact = ''a'',
             l_packaging = ''jar'', l_version = ''1.0'', l_tail = ''compile''\<rparr>"
  let ?doc = "doc_of ''root'' (map render_line [?l] @ ''-- h:b:jar:2.0:test'' # [''+- i:c:jar:3:x''])"
  have f: "tree_line ?doc (length ?doc - length (join_lines (''-- h:b:jar:2.0:test'' # [''+- i:c:jar:3:x''])))
             = Some Failure"
    by code_simp
  show ?thesis
    using one_record_per_line_or_none [of "''root''" "[?l]" "''\<newline>''" "''-- h:b:jar:2.0:test''"
        "[''+- i:c:jar:3:x'']" None, OF _ _ _ _ _ f]
    by (simp add: line_ok_def marker_ok_def glyph_ok_def seg_ok_def render_line_def
        coordinate_def doc_of_def)
qed

text \<open>
  C7: for a well-formed document the output is the list of records of its dependency
  lines in the order of the document, numbered from line 2 on, each with the ecosystem
  \<open>Maven\<close> and no allowed hashes.
\<close>

theorem records_in_document_order:
  assumes "CHR ''\<newline>'' \<notin> set label" and "list_all line_ok ls"
    and "post = [] \<or> post = ''\<newline>''"
  shows "parse_pom_tree (Some (doc_of label (map render_line ls) @ post)) u =
           Some (map (\<lambda>(n, l). \<lparr>package = l_artifact l, version = l_version l, ecosystem = Maven,
                                 allowed_hashes = [],
                                 transitivity = (if l_indent l = [] then Direct else Transitive),
                                 line_number = n\<rparr>) (List.enumerate 2 ls))"
  using well_formed_parse [OF assms] by (simp only: found_values)

theorem records_in_document_order_witness:
  "parse_pom_tree (Some ''root\<newline>+- z:zeta:jar:9:compile\<newline>|  +- a:alpha:jar:1:test'') None =
     Some [\<lparr>package = ''zeta'', version = ''9'', ecosystem = Maven, allowed_hashes = [],
            transitivity = Direct, line_number = 2\<rparr>,
           \<lparr>package = ''alpha'', version = ''1'', ecosystem = Maven, allowed_hashes = [],
            transitivity = Transitive, line_number = 3\<rparr>]"
  using records_in_document_order [of "''root''"
      "[\<lparr>l_indent = [], l_glyph = ''+- '', l_group = ''z'', l_artifact = ''zeta'',
          l_packaging = ''jar'', l_version = ''9'', l_tail = ''compile''\<rparr>,
        \<lparr>l_indent = [''|  ''], l_glyph = ''+- '', l_group = ''a'', l_artifact = ''alpha'',
          l_packaging = ''jar'', l_version = ''1'', l_tail = ''test''\<rparr>]"
      "[]" None]
  by (simp add: line_ok_def marker_ok_def glyph_ok_def seg_ok_def render_line_def
      coordinate_def doc_of_def enumerate_simps)

text \<open>
  C8: a well-formed document that does not end in a newline parses to the same records
  with one newline appended, one record per dependency line: the blank last line gives
  no record.
\<close>

theorem trailing_newline_ignored:
  assumes "CHR ''\<newline>'' \<notin> set label" and "list_all line_ok ls"
  shows "parse_pom_tree (Some (doc_of label (map render_line ls) @ ''\<newline>'')) u =
           parse_pom_tree (Some (doc_of label (map render_line ls))) u \<and>
         map_option length (parse_pom_tree (Some (doc_of label (map render_line ls) @ ''\<newline>'')) u) =
           Some (length ls)"
  using well_formed_parse [OF assms, of "''\<newline>''" u] well_formed_parse [OF assms, of "[]" u]
  by simp

theorem trailing_newline_ignored_witness:
  "parse_pom_tree (Some ''root\<newline>+- g:a:jar:1.0:compile\<newline>'') None =
     parse_pom_tree (Some ''root\<newline>+- g:a:jar:1.0:compile'') None \<and>
   map_option length (parse_pom_tree (Some ''root\<newline>+- g:a:jar:1.0:compile\<newline>'') None) = Some 1"
proof -
  let ?l = "\<lparr>l_indent = [], l_glyph = ''+- '', l_group = ''g'', l_artifact = ''a'',
             l_packaging = ''jar'', l_version = ''1.0'', l_tail = ''compile''\<rparr>"
  have n: "CHR ''\<newline>'' \<notin> set ''root''" by simp
  have l: "list_all line_ok [?l]"
    by (simp add: line_ok_def marker_ok_def glyph_ok_def seg_ok_def)
  note t = trailing_newline_ignored [OF n l, of None]
  show ?thesis
    using conjunct1 [OF t] conjunct2 [OF t]
    by (simp add: render_line_def coordinate_def doc_of_def del: map_option_eq_Some)
qed







end
